theory Spec2Isabelle
  imports Main "HOL-Library.Word"
begin

unbundle bit_operations_syntax

section \<open>The SS58 address codec\<close>

text \<open>
  A shallow embedding of the SS58 codec (\<^verbatim>\<open>decode\<close> and \<^verbatim>\<open>encode\<close> with their helper
  \<^verbatim>\<open>computeChecksum\<close>). Bytes are \<open>8 word\<close> (the elements of a \<^verbatim>\<open>Uint8Array\<close> and of
  the byte array that the base-58 decoder returns). The network identifier
  \<^verbatim>\<open>ss58Format\<close> is a JavaScript number; the model covers its integer values, as \<open>int\<close>.
  The bitwise operators of JavaScript work on 32-bit integers; every operand below lies
  between 0 and 16383 when an operator is reached, so the operators of \<open>int\<close> compute
  the same values.

  The two collaborators of the codec, the base-58 text codec and the hash function
  \<^verbatim>\<open>blake2b\<close>, are parameters of the model.
\<close>

subsection \<open>Constants\<close>

definition CHECKSUM_BYTE_LENGTH :: nat where
  "CHECKSUM_BYTE_LENGTH = 2"

definition DATA_LENGTH :: nat where
  "DATA_LENGTH = 32"

definition MAX_SIMPLE_PREFIX :: int where
  "MAX_SIMPLE_PREFIX = 0x3f"

definition MAX_PREFIX :: int where
  "MAX_PREFIX = 0x3fff"

definition RESERVED_PREFIXES :: "int list" where
  "RESERVED_PREFIXES = [46, 47]"

subsection \<open>Data\<close>

type_synonym byte = "8 word"

record Address =
  data :: "byte list"
  ss58Format :: int

text \<open>
  The failures. \<^verbatim>\<open>assert(cond, message, ErrorClass)\<close> throws when \<open>cond\<close> is false; each
  constructor stands for one message of the source and carries the values the message
  prints: \<^verbatim>\<open>Reserved prefix: f\<close>, \<^verbatim>\<open>Invalid data length: n\<close>, \<^verbatim>\<open>Invalid prefix: f\<close>
  and \<^verbatim>\<open>Invalid checksum: a !== b\<close>. \<open>InvalidBase58\<close> is the failure of the base-58
  decoder.
\<close>

datatype error =
    InvalidBase58
  | ReservedFormat int
  | InvalidDataLength nat
  | InvalidFormatRange int
  | ChecksumMismatch "byte option" "byte option"

subsection \<open>JavaScript array reads\<close>

text \<open>
  \<^verbatim>\<open>xs[i]\<close> is \<^verbatim>\<open>undefined\<close> (here \<open>None\<close>) when \<open>i\<close> is not an index of \<open>xs\<close>; it
  never throws. An operand of \<^verbatim>\<open>&\<close>, \<^verbatim>\<open>>>\<close> or \<^verbatim>\<open><<\<close> is converted to a 32-bit
  integer first, and \<^verbatim>\<open>undefined\<close> converts to 0.
\<close>

definition js_index :: "'a list \<Rightarrow> nat \<Rightarrow> 'a option" where
  "js_index xs i = (if i < length xs then Some (xs ! i) else None)"

definition to_int32 :: "byte option \<Rightarrow> int" where
  "to_int32 v = (case v of None \<Rightarrow> 0 | Some b \<Rightarrow> uint b)"

text \<open>Storing a number in a \<^verbatim>\<open>Uint8Array\<close> keeps its low 8 bits.\<close>

definition to_uint8 :: "int \<Rightarrow> byte" where
  "to_uint8 n = word_of_int n"

subsection \<open>The checksum\<close>

definition checksumPrefix :: "byte list" where
  "checksumPrefix = [83, 83, 53, 56, 80, 82, 69]"

definition computeChecksum :: "(byte list \<Rightarrow> byte list) \<Rightarrow> byte list \<Rightarrow> byte list" where
  "computeChecksum blake2b bytes =
     take CHECKSUM_BYTE_LENGTH (blake2b (checksumPrefix @ bytes))"

subsection \<open>The prefix\<close>

text \<open>
  The branch of \<^verbatim>\<open>decode\<close> that reads the prefix, for a first byte \<open>b0\<close> that is there
  and a second byte \<open>b1\<close> that may be missing: the length of the prefix and the
  network identifier.
\<close>

definition unpack :: "byte \<Rightarrow> byte option \<Rightarrow> nat \<times> int" where
  "unpack b0 b1 =
     (if uint b0 AND 0x40 \<noteq> 0 then
        (2, push_bit 2 (uint b0 AND 0x3f) OR drop_bit 6 (to_int32 b1)
              OR push_bit 8 (to_int32 b1 AND 0x3f))
      else (1, uint b0))"

text \<open>The branch of \<^verbatim>\<open>encode\<close> that builds \<^verbatim>\<open>prefixBytes\<close>, an array of numbers.\<close>

definition pack :: "int \<Rightarrow> int list" where
  "pack f =
     (if f \<le> MAX_SIMPLE_PREFIX then [f]
      else [drop_bit 2 (f AND 0x00fc) OR 0x0040,
            drop_bit 8 f OR push_bit 6 (f AND 0x0003)])"

subsection \<open>Decoding\<close>

text \<open>
  \<^verbatim>\<open>decode\<close> after the base-58 decoder has returned \<open>decodedBytes\<close>.

  For the empty array \<^verbatim>\<open>decodedBytes[0]\<close> is \<^verbatim>\<open>undefined\<close>: \<^verbatim>\<open>undefined & 0x40\<close> is 0, so
  the simple branch is taken with \<^verbatim>\<open>ss58FormatLen = 1\<close> and \<^verbatim>\<open>ss58Format = undefined\<close>,
  which the reserved list does not include; \<^verbatim>\<open>splice(-2)\<close> and \<^verbatim>\<open>slice(1)\<close> of the empty
  array are empty, and the length assertion fails with \<^verbatim>\<open>Invalid data length: 0\<close>.

  \<^verbatim>\<open>decodedBytes.splice(-2)\<close> removes the elements from index \<open>max (len - 2) 0\<close> to the
  end and returns them; the subtraction of \<open>nat\<close> stops at 0 in the same way.
\<close>

fun decode_bytes :: "(byte list \<Rightarrow> byte list) \<Rightarrow> byte list \<Rightarrow> error + Address" where
  "decode_bytes blake2b [] = Inl (InvalidDataLength 0)"
| "decode_bytes blake2b (b0 # rest) =
     (let decodedBytes = b0 # rest;
          (ss58FormatLen, format) = unpack b0 (js_index decodedBytes 1)
      in if format \<in> set RESERVED_PREFIXES then Inl (ReservedFormat format)
         else
           let checksumBytes =
                 drop (length decodedBytes - CHECKSUM_BYTE_LENGTH) decodedBytes;
               spliced = take (length decodedBytes - CHECKSUM_BYTE_LENGTH) decodedBytes;
               payload = drop ss58FormatLen spliced
           in if length payload \<noteq> DATA_LENGTH then Inl (InvalidDataLength (length payload))
              else
                let checksum = computeChecksum blake2b spliced
                in if js_index checksumBytes 0 \<noteq> js_index checksum 0
                   then Inl (ChecksumMismatch (js_index checksumBytes 0) (js_index checksum 0))
                   else if js_index checksumBytes 1 \<noteq> js_index checksum 1
                   then Inl (ChecksumMismatch (js_index checksumBytes 1) (js_index checksum 1))
                   else Inr \<lparr>data = payload, ss58Format = format\<rparr>)"

definition decode ::
  "(string \<Rightarrow> byte list option) \<Rightarrow> (byte list \<Rightarrow> byte list) \<Rightarrow> string \<Rightarrow> error + Address" where
  "decode base58_decode blake2b input =
     (case base58_decode input of
        None \<Rightarrow> Inl InvalidBase58
      | Some decodedBytes \<Rightarrow> decode_bytes blake2b decodedBytes)"

subsection \<open>Encoding\<close>

text \<open>
  \<^verbatim>\<open>encode\<close> up to the array handed to the base-58 encoder. \<^verbatim>\<open>prefixBytes\<close> is an array
  of numbers; the checksum is computed over a \<^verbatim>\<open>Uint8Array\<close> built from it. The array
  handed to the encoder holds the numbers themselves; past the range check they are bytes
  (lemma \<open>pack_bytes_exact\<close> below), so the model keeps them as bytes.
\<close>

definition encode_bytes :: "(byte list \<Rightarrow> byte list) \<Rightarrow> Address \<Rightarrow> error + byte list" where
  "encode_bytes blake2b a =
     (if length (data a) \<noteq> DATA_LENGTH then Inl (InvalidDataLength (length (data a)))
      else if \<not> (ss58Format a \<ge> 0 \<and> ss58Format a \<le> MAX_PREFIX)
      then Inl (InvalidFormatRange (ss58Format a))
      else if ss58Format a \<in> set RESERVED_PREFIXES then Inl (ReservedFormat (ss58Format a))
      else
        let prefixBytes = map to_uint8 (pack (ss58Format a));
            checksum = computeChecksum blake2b (prefixBytes @ data a)
        in Inr (prefixBytes @ data a @ checksum))"

definition encode ::
  "(byte list \<Rightarrow> string) \<Rightarrow> (byte list \<Rightarrow> byte list) \<Rightarrow> Address \<Rightarrow> error + string" where
  "encode base58_encode blake2b a =
     (case encode_bytes blake2b a of
        Inl e \<Rightarrow> Inl e
      | Inr wire \<Rightarrow> Inr (base58_encode wire))"

subsection \<open>An instance of the collaborators\<close>

text \<open>
  A text codec and a hash function to run the codec on concrete inputs: the text holds one
  character per byte, and every byte of the 64-byte digest is the sum of the input bytes.
\<close>

definition text_of_bytes :: "byte list \<Rightarrow> string" where
  "text_of_bytes bytes = map (\<lambda>b. char_of (unat b)) bytes"

definition bytes_of_text :: "string \<Rightarrow> byte list option" where
  "bytes_of_text s = Some (map (\<lambda>c. of_nat (of_char c)) s)"

definition sum_hash :: "byte list \<Rightarrow> byte list" where
  "sum_hash bytes = replicate 64 (sum_list bytes)"

section \<open>Properties\<close>

subsection \<open>Bits of the masks\<close>

lemma int_bit_bound: "0 \<le> (f::int) \<Longrightarrow> f < 2 ^ n \<Longrightarrow> bit f m \<Longrightarrow> m < n"
  by (metis bit_take_bit_iff take_bit_int_eq_self)

lemma bit_0x40: "bit (0x40::int) n \<longleftrightarrow> n = 6"
proof -
  have "bit (push_bit 6 (1::int)) n \<longleftrightarrow> n = 6"
    unfolding bit_push_bit_iff bit_1_iff by auto
  then show ?thesis by simp
qed

lemma bit_0x3f: "bit (0x3f::int) n \<longleftrightarrow> n < 6"
proof -
  have "bit (mask 6 :: int) n \<longleftrightarrow> n < 6"
    unfolding bit_mask_iff by auto
  then show ?thesis by (simp add: mask_eq_exp_minus_1)
qed

lemma bit_0x03: "bit (3::int) n \<longleftrightarrow> n < 2"
proof -
  have "bit (mask 2 :: int) n \<longleftrightarrow> n < 2"
    unfolding bit_mask_iff by auto
  then show ?thesis by (simp add: mask_eq_exp_minus_1)
qed

lemma bit_0xfc: "bit (0xfc::int) n \<longleftrightarrow> 2 \<le> n \<and> n < 8"
proof -
  have "bit (push_bit 2 (mask 6 :: int)) n \<longleftrightarrow> 2 \<le> n \<and> n < 8"
    unfolding bit_push_bit_iff bit_mask_iff by auto
  then show ?thesis by (simp add: mask_eq_exp_minus_1)
qed

lemma Suc_Suc_diff2: "2 \<le> n \<Longrightarrow> Suc (Suc (n - 2)) = n"
  by simp

lemmas bit_ops = bit_push_bit_iff bit_and_iff bit_or_iff bit_take_bit_iff bit_drop_bit_eq
  bit_0x40 bit_0x3f bit_0x03 bit_0xfc

subsection \<open>Packing and unpacking\<close>

lemma simple_bit6:
  assumes "0 \<le> (f::int)" "f \<le> 63"
  shows "f AND 0x40 = 0"
proof (rule bit_eqI)
  fix n
  have "bit f n \<Longrightarrow> n < 6" using int_bit_bound [of f 6 n] assms by simp
  then show "bit (f AND 0x40) n = bit (0::int) n"
    by (auto simp: bit_and_iff bit_0x40)
qed

lemma ext_bit6: "take_bit 8 (drop_bit 2 ((f::int) AND 0xfc) OR 0x40) AND 0x40 \<noteq> 0"
proof
  assume "take_bit 8 (drop_bit 2 (f AND 0xfc) OR 0x40) AND 0x40 = 0"
  then have "bit (take_bit 8 (drop_bit 2 (f AND 0xfc) OR 0x40) AND 0x40) 6 = bit (0::int) 6"
    by simp
  then show False by (simp add: bit_and_iff bit_or_iff bit_take_bit_iff bit_0x40)
qed

lemma ext_value:
  assumes "0 \<le> (f::int)" "f \<le> 16383"
  shows "push_bit 2 (take_bit 8 (drop_bit 2 (f AND 0xfc) OR 0x40) AND 0x3f)
         OR drop_bit 6 (take_bit 8 (drop_bit 8 f OR push_bit 6 (f AND 3)))
         OR push_bit 8 (take_bit 8 (drop_bit 8 f OR push_bit 6 (f AND 3)) AND 0x3f) = f"
proof (rule bit_eqI)
  fix n
  have hi: "\<And>m. bit f m \<Longrightarrow> m < 14" using int_bit_bound [of f 14] assms by simp
  let ?p0 = "take_bit 8 (drop_bit 2 (f AND 0xfc) OR 0x40)"
  let ?p1 = "take_bit 8 (drop_bit 8 f OR push_bit 6 (f AND 3))"
  have t1: "bit (push_bit 2 (?p0 AND 0x3f)) n \<longleftrightarrow> 2 \<le> n \<and> n < 8 \<and> bit f n"
    unfolding bit_ops by (auto dest: hi simp: Suc_Suc_diff2)
  have t2: "bit (drop_bit 6 ?p1) n \<longleftrightarrow> n < 2 \<and> bit f n"
    unfolding bit_ops by (auto dest: hi simp: Suc_Suc_diff2)
  have t3: "bit (push_bit 8 (?p1 AND 0x3f)) n \<longleftrightarrow> 8 \<le> n \<and> bit f n"
    unfolding bit_ops by (auto dest: hi simp: Suc_Suc_diff2)
  show "bit (push_bit 2 (?p0 AND 0x3f) OR drop_bit 6 ?p1 OR push_bit 8 (?p1 AND 0x3f)) n = bit f n"
    unfolding bit_or_iff t1 t2 t3 by auto
qed

lemma uint_to_uint8: "uint (to_uint8 n) = take_bit 8 n"
  by (simp add: to_uint8_def uint_word_of_int_eq)

lemma unpack_simple:
  assumes "0 \<le> f" "f \<le> 63"
  shows "unpack (to_uint8 f) b1 = (1, f)"
proof -
  have "uint (to_uint8 f) = f"
    using assms by (simp add: uint_to_uint8 take_bit_int_eq_self)
  then show ?thesis
    using simple_bit6 [OF assms] by (simp add: unpack_def)
qed

lemma unpack_extended:
  assumes "0 \<le> f" "f \<le> 16383"
  shows "unpack (to_uint8 (drop_bit 2 (f AND 0x00fc) OR 0x0040))
           (Some (to_uint8 (drop_bit 8 f OR push_bit 6 (f AND 0x0003)))) = (2, f)"
  using ext_value [OF assms] ext_bit6 [of f]
  by (simp add: unpack_def to_int32_def uint_to_uint8)

lemma to_int32_range: "0 \<le> to_int32 b1" "to_int32 b1 < 256"
  using uint_lt2p [where 'a = 8] by (auto simp: to_int32_def split: option.splits)

lemma ext_value_range:
  assumes "0 \<le> t" "t < 256"
  shows "0 \<le> push_bit 2 ((x::int) AND 0x3f) OR drop_bit 6 t OR push_bit 8 (t AND 0x3f)"
    and "push_bit 2 ((x::int) AND 0x3f) OR drop_bit 6 t OR push_bit 8 (t AND 0x3f) < 2 ^ 14"
proof -
  have a: "x AND 0x3f \<le> 0x3f" and c: "t AND 0x3f \<le> 0x3f" by simp_all
  have p1: "0 \<le> push_bit 2 (x AND 0x3f)" by simp
  have p1': "push_bit 2 (x AND 0x3f) < 2 ^ 14" using a by (simp add: push_bit_eq_mult)
  have p3: "0 \<le> push_bit 8 (t AND 0x3f)" by simp
  have p3': "push_bit 8 (t AND 0x3f) < 2 ^ 14" using c by (simp add: push_bit_eq_mult)
  have p2: "0 \<le> drop_bit 6 t" using assms by simp
  have p2': "drop_bit 6 t < 2 ^ 14" using assms by (simp add: drop_bit_eq_div)
  show "0 \<le> push_bit 2 (x AND 0x3f) OR drop_bit 6 t OR push_bit 8 (t AND 0x3f)"
    using p1 p2 p3 by simp
  have "drop_bit 6 t OR push_bit 8 (t AND 0x3f) < 2 ^ 14"
    using p2 p2' p3' by (rule OR_upper)
  with p1 p1' show "push_bit 2 (x AND 0x3f) OR drop_bit 6 t OR push_bit 8 (t AND 0x3f) < 2 ^ 14"
    by (rule OR_upper)
qed

lemma unpack_range: "0 \<le> snd (unpack b0 b1)" "snd (unpack b0 b1) \<le> 16383"
proof -
  have u: "uint b0 < 256" using uint_lt2p [of b0] by simp
  show "0 \<le> snd (unpack b0 b1)"
    using ext_value_range(1) [where t = "to_int32 b1" and x = "uint b0", OF to_int32_range]
    by (simp add: unpack_def)
  show "snd (unpack b0 b1) \<le> 16383"
    using ext_value_range(2) [where t = "to_int32 b1" and x = "uint b0", OF to_int32_range] u
    by (simp add: unpack_def)
qed

lemma unpack_len: "fst (unpack b0 b1) = 1 \<or> fst (unpack b0 b1) = 2"
  by (simp add: unpack_def)

subsection \<open>Decoding, case by case\<close>

lemma computeChecksum_length: "length (computeChecksum h bytes) \<le> 2"
  by (simp add: computeChecksum_def CHECKSUM_BYTE_LENGTH_def)

lemma computeChecksum_length_eq:
  "2 \<le> length (h (checksumPrefix @ bytes)) \<Longrightarrow> length (computeChecksum h bytes) = 2"
  by (simp add: computeChecksum_def CHECKSUM_BYTE_LENGTH_def)

lemma two_bytes_eq:
  assumes "length c = 2" "length cs \<le> 2"
  shows "(js_index c 0 = js_index cs 0 \<and> js_index c (Suc 0) = js_index cs (Suc 0)) \<longleftrightarrow> c = cs"
proof -
  obtain x y where c: "c = [x, y]"
    using assms(1) by (auto simp: length_Suc_conv numeral_2_eq_2)
  show ?thesis
  proof (cases cs)
    case Nil
    then show ?thesis by (simp add: c js_index_def)
  next
    case (Cons u us)
    then show ?thesis using assms(2) by (cases us) (auto simp: c js_index_def)
  qed
qed

lemma decode_bytes_reserved:
  assumes "unpack b0 (js_index (b0 # rest) 1) = (len, f)" "f = 46 \<or> f = 47"
  shows "decode_bytes h (b0 # rest) = Inl (ReservedFormat f)"
  using assms by (auto simp: Let_def RESERVED_PREFIXES_def)

lemma decode_bytes_length:
  assumes "unpack b0 (js_index (b0 # rest) 1) = (len, f)" "f \<noteq> 46" "f \<noteq> 47"
    and "length (b0 # rest) \<noteq> len + 34"
  shows "decode_bytes h (b0 # rest) = Inl (InvalidDataLength (length (b0 # rest) - 2 - len))"
proof -
  have "len = 1 \<or> len = 2"
    using unpack_len [of b0 "js_index (b0 # rest) 1"] assms(1) by simp
  then have "length (b0 # rest) - 2 - len \<noteq> 32" using assms(4) by auto
  then show ?thesis
    using assms(1-3)
    by (simp add: Let_def RESERVED_PREFIXES_def CHECKSUM_BYTE_LENGTH_def DATA_LENGTH_def)
qed

lemma decode_bytes_wire:
  assumes u: "unpack b0 (js_index (b0 # ps @ d @ c) 1) = (Suc (length ps), f)"
    and nres: "f \<noteq> 46" "f \<noteq> 47"
    and len: "length d = 32" "length c = 2"
  shows "decode_bytes h (b0 # ps @ d @ c) =
           (if c = computeChecksum h (b0 # ps @ d) then Inr \<lparr>data = d, ss58Format = f\<rparr>
            else if js_index c 0 \<noteq> js_index (computeChecksum h (b0 # ps @ d)) 0
            then Inl (ChecksumMismatch (js_index c 0) (js_index (computeChecksum h (b0 # ps @ d)) 0))
            else Inl (ChecksumMismatch (js_index c 1) (js_index (computeChecksum h (b0 # ps @ d)) 1)))"
proof -
  let ?cs = "computeChecksum h (b0 # ps @ d)"
  have eq: "(js_index c 0 = js_index ?cs 0 \<and> js_index c (Suc 0) = js_index ?cs (Suc 0))
            \<longleftrightarrow> c = ?cs"
    using two_bytes_eq [OF len(2) computeChecksum_length] .
  have L: "length (b0 # ps @ d @ c) - CHECKSUM_BYTE_LENGTH = length (b0 # ps @ d)"
    using len by (simp add: CHECKSUM_BYTE_LENGTH_def)
  have T: "take (length (b0 # ps @ d)) (b0 # ps @ d @ c) = b0 # ps @ d" by simp
  have D: "drop (length (b0 # ps @ d)) (b0 # ps @ d @ c) = c" by simp
  have P: "drop (Suc (length ps)) (b0 # ps @ d) = d" by simp
  have "decode_bytes h (b0 # ps @ d @ c) =
          (if js_index c 0 \<noteq> js_index ?cs 0
           then Inl (ChecksumMismatch (js_index c 0) (js_index ?cs 0))
           else if js_index c 1 \<noteq> js_index ?cs 1
           then Inl (ChecksumMismatch (js_index c 1) (js_index ?cs 1))
           else Inr \<lparr>data = d, ss58Format = f\<rparr>)"
    apply (subst decode_bytes.simps)
    apply (simp only: Let_def u prod.case L T D P)
    using nres len by (simp add: RESERVED_PREFIXES_def DATA_LENGTH_def)
  then show ?thesis using eq by auto
qed

declare decode_bytes.simps(2) [simp del]


lemma split_wire:
  assumes "length (b0 # rest) = len + 34" "len = 1 \<or> len = 2"
  obtains ps d c where "rest = ps @ d @ c" "Suc (length ps) = len" "length d = 32" "length c = 2"
proof
  let ?ps = "take (len - 1) rest"
  let ?d = "take 32 (drop (len - 1) rest)"
  let ?c = "drop 32 (drop (len - 1) rest)"
  show "rest = ?ps @ ?d @ ?c" by (simp only: append_take_drop_id)
  show "Suc (length ?ps) = len" using assms by auto
  show "length ?d = 32" using assms by auto
  show "length ?c = 2" using assms by auto
qed

lemma decode_bytes_InrD:
  assumes ok: "decode_bytes h bytes = Inr a"
  obtains b0 ps c where
    "bytes = b0 # ps @ data a @ c"
    "unpack b0 (js_index bytes 1) = (Suc (length ps), ss58Format a)"
    "ss58Format a \<noteq> 46" "ss58Format a \<noteq> 47"
    "length (data a) = 32" "length c = 2"
    "c = computeChecksum h (b0 # ps @ data a)"
proof -
  obtain b0 rest where bytes: "bytes = b0 # rest"
    using ok by (cases bytes) auto
  obtain len f where u: "unpack b0 (js_index (b0 # rest) 1) = (len, f)"
    by (cases "unpack b0 (js_index (b0 # rest) 1)")
  have len: "len = 1 \<or> len = 2"
    using unpack_len [of b0 "js_index (b0 # rest) 1"] u by simp
  have nres: "f \<noteq> 46" "f \<noteq> 47"
    using decode_bytes_reserved [OF u, of h] ok bytes by auto
  have total: "length (b0 # rest) = len + 34"
    using decode_bytes_length [OF u nres, of h] ok bytes by auto
  obtain ps d c where parts: "rest = ps @ d @ c" "Suc (length ps) = len"
      "length d = 32" "length c = 2"
    using split_wire [OF total len] by blast
  have u': "unpack b0 (js_index (b0 # ps @ d @ c) 1) = (Suc (length ps), f)"
    using u parts by simp
  have res: "c = computeChecksum h (b0 # ps @ d) \<and> a = \<lparr>data = d, ss58Format = f\<rparr>"
    using decode_bytes_wire [OF u' nres parts(3,4), of h] ok bytes parts(1)
    by (auto split: if_splits)
  show thesis
  proof (rule that [of b0 ps c])
    show "bytes = b0 # ps @ data a @ c" using res bytes parts by simp
    show "unpack b0 (js_index bytes 1) = (Suc (length ps), ss58Format a)"
      using res bytes parts u' by simp
    show "ss58Format a \<noteq> 46" "ss58Format a \<noteq> 47" using res nres by simp_all
    show "length (data a) = 32" using res parts by simp
    show "length c = 2" by (rule parts(4))
    show "c = computeChecksum h (b0 # ps @ data a)" using res by simp
  qed
qed

subsection \<open>Encoding, case by case\<close>

lemma pack_bytes_exact:
  assumes "0 \<le> f" "f \<le> 16383"
  shows "map (\<lambda>b. uint (to_uint8 b)) (pack f) = pack f"
proof (cases "f \<le> 63")
  case True
  then show ?thesis
    using assms by (simp add: pack_def MAX_SIMPLE_PREFIX_def uint_to_uint8 take_bit_int_eq_self)
next
  case False
  let ?p0 = "drop_bit 2 (f AND 0xfc) OR 0x40"
  let ?p1 = "drop_bit 8 f OR push_bit 6 (f AND 3)"
  have a: "f AND 0xfc \<le> 0xfc" and b: "f AND 3 \<le> 3" by simp_all
  have p0: "?p0 < 2 ^ 8"
  proof (rule OR_upper)
    show "0 \<le> drop_bit 2 (f AND 0xfc)" by simp
    have "(f AND 0xfc) div 4 < 256" using a by arith
    then show "drop_bit 2 (f AND 0xfc) < 2 ^ 8" by (simp add: drop_bit_eq_div)
  qed simp
  have p1: "?p1 < 2 ^ 8"
  proof (rule OR_upper)
    show "0 \<le> drop_bit 8 f" using assms by simp
    show "drop_bit 8 f < 2 ^ 8" using assms by (simp add: drop_bit_eq_div)
    show "push_bit 6 (f AND 3) < 2 ^ 8" using b by (simp add: push_bit_eq_mult)
  qed
  have n0: "0 \<le> ?p0" and n1: "0 \<le> ?p1"
    using assms by simp_all
  have e0: "take_bit 8 ?p0 = ?p0" using n0 p0 by (rule take_bit_int_eq_self)
  have e1: "take_bit 8 ?p1 = ?p1" using n1 p1 by (rule take_bit_int_eq_self)
  have pk: "pack f = [?p0, ?p1]"
    using False by (simp add: pack_def MAX_SIMPLE_PREFIX_def)
  show ?thesis
    unfolding pk by (simp only: list.map uint_to_uint8 e0 e1)
qed

lemma pack_length: "length (pack f) = (if f \<le> 63 then 1 else 2)"
  by (simp add: pack_def MAX_SIMPLE_PREFIX_def)

lemma unpack_packed:
  assumes "0 \<le> f" "f \<le> 16383"
  shows "\<exists>b0 ps. map to_uint8 (pack f) = b0 # ps \<and>
           unpack b0 (js_index (map to_uint8 (pack f) @ rest) 1) = (Suc (length ps), f)"
proof (cases "f \<le> 63")
  case True
  then show ?thesis
    using unpack_simple [OF assms(1)] by (simp add: pack_def MAX_SIMPLE_PREFIX_def)
next
  case False
  then show ?thesis
    using unpack_extended [OF assms]
    by (simp add: pack_def MAX_SIMPLE_PREFIX_def js_index_def)
qed

lemma encode_bytes_valid:
  assumes "length (data a) = 32" "0 \<le> ss58Format a" "ss58Format a \<le> 16383"
    and "ss58Format a \<noteq> 46" "ss58Format a \<noteq> 47"
  shows "encode_bytes h a =
           Inr (map to_uint8 (pack (ss58Format a)) @ data a @
                computeChecksum h (map to_uint8 (pack (ss58Format a)) @ data a))"
  using assms
  by (simp add: encode_bytes_def Let_def DATA_LENGTH_def MAX_PREFIX_def RESERVED_PREFIXES_def)

lemma decode_bytes_packed:
  assumes "0 \<le> f" "f \<le> 16383" "f \<noteq> 46" "f \<noteq> 47" "length d = 32"
    and "2 \<le> length (h (checksumPrefix @ map to_uint8 (pack f) @ d))"
  shows "decode_bytes h (map to_uint8 (pack f) @ d @ computeChecksum h (map to_uint8 (pack f) @ d))
           = Inr \<lparr>data = d, ss58Format = f\<rparr>"
proof -
  let ?c = "computeChecksum h (map to_uint8 (pack f) @ d)"
  obtain b0 ps where p: "map to_uint8 (pack f) = b0 # ps"
    and u: "unpack b0 (js_index (map to_uint8 (pack f) @ d @ ?c) 1) = (Suc (length ps), f)"
    using unpack_packed [OF assms(1,2), of "d @ ?c"] by auto
  have c: "length ?c = 2"
    using assms(6) by (simp add: computeChecksum_length_eq)
  show ?thesis
    using decode_bytes_wire [of b0 ps d ?c f h] u c assms(3-5) by (simp add: p)
qed


lemma encode_Inr:
  "encode_bytes h a = Inr wire \<Longrightarrow> encode base58_encode h a = Inr (base58_encode wire)"
  by (simp add: encode_def)

lemma decode_bytes_outcome:
  "(\<exists>a. decode_bytes h bytes = Inr a \<and> length (data a) = 32 \<and> 0 \<le> ss58Format a \<and>
        ss58Format a \<le> 16383 \<and> ss58Format a \<noteq> 46 \<and> ss58Format a \<noteq> 47)
   \<or> (\<exists>f. decode_bytes h bytes = Inl (ReservedFormat f) \<and> (f = 46 \<or> f = 47))
   \<or> (\<exists>n. decode_bytes h bytes = Inl (InvalidDataLength n) \<and> n \<noteq> 32)
   \<or> (\<exists>x y. decode_bytes h bytes = Inl (ChecksumMismatch x y) \<and> x \<noteq> y)"
proof (cases bytes)
  case Nil
  then show ?thesis by simp
next
  case (Cons b0 rest)
  obtain len f where u: "unpack b0 (js_index (b0 # rest) 1) = (len, f)"
    by (cases "unpack b0 (js_index (b0 # rest) 1)")
  have len: "len = 1 \<or> len = 2"
    using unpack_len [of b0 "js_index (b0 # rest) 1"] u by simp
  have f: "0 \<le> f" "f \<le> 16383"
    using unpack_range [of b0 "js_index (b0 # rest) 1"] u by simp_all
  show ?thesis
  proof (cases "f = 46 \<or> f = 47")
    case True
    then show ?thesis
      using decode_bytes_reserved [OF u True, of h] Cons by simp
  next
    case nres: False
    show ?thesis
    proof (cases "length (b0 # rest) = len + 34")
      case False
      have "length (b0 # rest) - 2 - len \<noteq> 32" using False len by auto
      then show ?thesis
        using decode_bytes_length [OF u _ _ False, of h] nres Cons by simp
    next
      case True
      obtain ps d c where parts: "rest = ps @ d @ c" "Suc (length ps) = len"
          "length d = 32" "length c = 2"
        using split_wire [OF True len] by blast
      let ?cs = "computeChecksum h (b0 # ps @ d)"
      have u': "unpack b0 (js_index (b0 # ps @ d @ c) 1) = (Suc (length ps), f)"
        using u parts by simp
      have w: "decode_bytes h bytes =
           (if c = ?cs then Inr \<lparr>data = d, ss58Format = f\<rparr>
            else if js_index c 0 \<noteq> js_index ?cs 0
            then Inl (ChecksumMismatch (js_index c 0) (js_index ?cs 0))
            else Inl (ChecksumMismatch (js_index c 1) (js_index ?cs 1)))"
        using decode_bytes_wire [OF u' _ _ parts(3,4), of h] nres Cons parts(1) by simp
      have two: "c \<noteq> ?cs \<Longrightarrow> js_index c 0 = js_index ?cs 0 \<Longrightarrow> js_index c 1 \<noteq> js_index ?cs 1"
        using two_bytes_eq [OF parts(4) computeChecksum_length, of h "b0 # ps @ d"] by auto
      show ?thesis
      proof (cases "c = ?cs")
        case True
        then show ?thesis using w f nres parts(3) by simp
      next
        case False
        then show ?thesis using w two by auto
      qed
    qed
  qed
qed

subsection \<open>The instance\<close>

lemma byte_of_char_of: "of_nat (of_char (char_of (unat b) :: char)) = (b :: byte)"
proof -
  have "unat b < 2 ^ LENGTH(8)" by (rule unsigned_less)
  then have "unat b < 256" by simp
  then show ?thesis by simp
qed

lemma text_roundtrip: "bytes_of_text (text_of_bytes bytes) = Some bytes"
  by (simp add: bytes_of_text_def text_of_bytes_def o_def byte_of_char_of del: of_char_of)

lemma sum_hash_length: "length (sum_hash bytes) = 64"
  by (simp add: sum_hash_def)


section \<open>The properties of the specification\<close>

text \<open>
  C2. For every format in \<open>[0, 16383]\<close>, unpacking the prefix produced by packing that
  format recovers the format and the length of the prefix, whatever bytes follow the prefix
  in the array; the numbers that \<open>pack\<close> emits are bytes; the prefix has length 1 exactly
  when the format is at most 63 and length 2 exactly when it is at least 64.
\<close>

theorem unpack_pack_inverse:
  assumes "0 \<le> f" "f \<le> 16383"
  shows "(\<exists>b0 ps. map to_uint8 (pack f) = b0 # ps \<and>
            unpack b0 (js_index (map to_uint8 (pack f) @ rest) 1) = (length (pack f), f))
         \<and> map (\<lambda>b. uint (to_uint8 b)) (pack f) = pack f
         \<and> (length (pack f) = 1 \<longleftrightarrow> f \<le> 63)
         \<and> (length (pack f) = 2 \<longleftrightarrow> 64 \<le> f)"
proof -
  obtain b0 ps where p: "map to_uint8 (pack f) = b0 # ps"
    and u: "unpack b0 (js_index (map to_uint8 (pack f) @ rest) 1) = (Suc (length ps), f)"
    using unpack_packed [OF assms, of rest] by auto
  have "length (map to_uint8 (pack f)) = Suc (length ps)" by (simp add: p)
  then have "Suc (length ps) = length (pack f)" by simp
  then have "\<exists>b0 ps. map to_uint8 (pack f) = b0 # ps \<and>
            unpack b0 (js_index (map to_uint8 (pack f) @ rest) 1) = (length (pack f), f)"
    using p u by auto
  moreover have "length (pack f) = 1 \<longleftrightarrow> f \<le> 63" by (simp add: pack_length)
  moreover have "length (pack f) = 2 \<longleftrightarrow> 64 \<le> f" by (auto simp: pack_length)
  ultimately show ?thesis using pack_bytes_exact [OF assms] by blast
qed

theorem unpack_pack_inverse_witness:
  "(0::int) \<le> 2112 \<and> (2112::int) \<le> 16383
   \<and> (\<exists>b0 ps. map to_uint8 (pack 2112) = b0 # ps \<and>
         unpack b0 (js_index (map to_uint8 (pack 2112) @ [7, 7]) 1) = (length (pack 2112), 2112))
   \<and> map (\<lambda>b. uint (to_uint8 b)) (pack 2112) = pack 2112
   \<and> (length (pack 2112) = 1 \<longleftrightarrow> (2112::int) \<le> 63)
   \<and> (length (pack 2112) = 2 \<longleftrightarrow> (64::int) \<le> 2112)"
proof -
  have h1: "(0::int) \<le> 2112" and h2: "(2112::int) \<le> 16383" by simp_all
  show ?thesis
    using unpack_pack_inverse [OF h1 h2, of "[7, 7]"] h1 h2 by blast
qed

text \<open>
  C7. For every first byte and every second byte (present or not), the format that
  \<open>unpack\<close> produces lies between 0 and 16383, and so does the format of every address
  that \<open>decode\<close> returns.
\<close>

theorem unpack_format_bound:
  "0 \<le> snd (unpack b0 b1) \<and> snd (unpack b0 b1) \<le> 16383
   \<and> (decode base58_decode blake2b input = Inr a \<longrightarrow>
        0 \<le> ss58Format a \<and> ss58Format a \<le> 16383)"
proof -
  have "0 \<le> ss58Format a \<and> ss58Format a \<le> 16383"
    if ok: "decode base58_decode blake2b input = Inr a"
  proof -
    obtain bytes where "decode_bytes blake2b bytes = Inr a"
      using ok by (auto simp: decode_def split: option.splits)
    then show ?thesis
      using decode_bytes_outcome [of blake2b bytes] by auto
  qed
  then show ?thesis using unpack_range [of b0 b1] by blast
qed

theorem unpack_format_bound_witness:
  "0 \<le> snd (unpack 255 (Some 255)) \<and> snd (unpack 255 (Some 255)) \<le> 16383
   \<and> decode bytes_of_text sum_hash
        (text_of_bytes (80 # 8 # replicate 32 7 @ [50, 50])) =
        Inr \<lparr>data = replicate 32 7, ss58Format = 2112\<rparr>
   \<and> 0 \<le> ss58Format \<lparr>data = replicate 32 7, ss58Format = 2112\<rparr>
   \<and> ss58Format \<lparr>data = replicate 32 7, ss58Format = 2112\<rparr> \<le> 16383"
proof -
  have cs: "computeChecksum sum_hash (80 # 8 # replicate 32 7) = [50, 50]"
    by code_simp
  have u: "unpack 80 (js_index (80 # [8] @ replicate 32 7 @ [50, 50]) 1) = (Suc (length [8::byte]), 2112)"
    by (simp add: unpack_def js_index_def to_int32_def)
  have "decode_bytes sum_hash (80 # [8] @ replicate 32 7 @ [50, 50]) =
          Inr \<lparr>data = replicate 32 7, ss58Format = 2112\<rparr>"
    using decode_bytes_wire [OF u, where h = sum_hash] cs by simp
  then have d: "decode bytes_of_text sum_hash
        (text_of_bytes (80 # 8 # replicate 32 7 @ [50, 50])) =
        Inr \<lparr>data = replicate 32 7, ss58Format = 2112\<rparr>"
    by (simp add: decode_def text_roundtrip)
  show ?thesis
    using unpack_format_bound [of 255 "Some 255" bytes_of_text sum_hash
        "text_of_bytes (80 # 8 # replicate 32 7 @ [50, 50])"
        "\<lparr>data = replicate 32 7, ss58Format = 2112\<rparr>"] d
    by simp
qed


text \<open>
  C1. For every address with 32 data bytes and a format in \<open>[0, 16383]\<close> other than 46
  and 47, \<open>encode\<close> returns a text and \<open>decode\<close> of that text returns the address,
  for a hash function that returns at least 2 bytes and a base-58 decoder that inverts the
  base-58 encoder.
\<close>

theorem decode_encode_roundtrip:
  assumes "length (data a) = 32"
    and "0 \<le> ss58Format a" "ss58Format a \<le> 16383"
    and "ss58Format a \<noteq> 46" "ss58Format a \<noteq> 47"
    and hash: "\<forall>bytes. 2 \<le> length (blake2b bytes)"
    and base58: "\<forall>bytes. base58_decode (base58_encode bytes) = Some bytes"
  shows "\<exists>text. encode base58_encode blake2b (a :: Address) = Inr text \<and>
           decode base58_decode blake2b text = Inr a"
proof -
  let ?p = "map to_uint8 (pack (ss58Format a))"
  let ?wire = "?p @ data a @ computeChecksum blake2b (?p @ data a)"
  have e: "encode base58_encode blake2b a = Inr (base58_encode ?wire)"
    using encode_bytes_valid [OF assms(1-5), of blake2b] by (simp add: encode_def)
  have "decode_bytes blake2b ?wire = Inr \<lparr>data = data a, ss58Format = ss58Format a\<rparr>"
    using decode_bytes_packed [OF assms(2-5) assms(1), of blake2b] hash by simp
  then have "decode base58_decode blake2b (base58_encode ?wire) = Inr a"
    using base58 by (simp add: decode_def)
  with e show ?thesis by blast
qed

theorem decode_encode_roundtrip_witness:
  "\<exists>text. encode text_of_bytes sum_hash \<lparr>data = replicate 32 7, ss58Format = 2112\<rparr> = Inr text \<and>
      decode bytes_of_text sum_hash text = Inr \<lparr>data = replicate 32 7, ss58Format = 2112\<rparr>"
  using decode_encode_roundtrip
    [of "\<lparr>data = replicate 32 7, ss58Format = 2112\<rparr>" sum_hash bytes_of_text text_of_bytes]
  by (simp add: sum_hash_length text_roundtrip)

text \<open>
  C8. For every valid address, and a hash function that returns at least 2 bytes, the array
  handed to the base-58 encoder is the prefix, the 32 data bytes and the 2 checksum bytes;
  it has length 35 when the format is at most 63 and length 36 when the format is at least
  64. Format 63 has a prefix of 1 byte and format 64 a prefix of 2 bytes.
\<close>

theorem encode_wire_length:
  assumes "length (data a) = 32"
    and "0 \<le> ss58Format a" "ss58Format a \<le> 16383"
    and "ss58Format a \<noteq> 46" "ss58Format a \<noteq> 47"
    and hash: "\<forall>bytes. 2 \<le> length (blake2b bytes)"
  shows "(\<exists>prefixBytes checksum.
           encode_bytes blake2b a = Inr (prefixBytes @ data a @ checksum)
           \<and> encode base58_encode blake2b a = Inr (base58_encode (prefixBytes @ data a @ checksum))
           \<and> map uint prefixBytes = pack (ss58Format a)
           \<and> length checksum = 2
           \<and> length prefixBytes = (if ss58Format a \<le> 63 then 1 else 2)
           \<and> length (prefixBytes @ data a @ checksum) = (if ss58Format a \<le> 63 then 35 else 36))
         \<and> length (pack 63) = 1 \<and> length (pack 64) = 2"
proof -
  let ?p = "map to_uint8 (pack (ss58Format a))"
  let ?c = "computeChecksum blake2b (?p @ data a)"
  have e: "encode_bytes blake2b a = Inr (?p @ data a @ ?c)"
    by (rule encode_bytes_valid [OF assms(1-5)])
  have c: "length ?c = 2"
    using hash by (simp add: computeChecksum_length_eq)
  have p: "length ?p = (if ss58Format a \<le> 63 then 1 else 2)"
    by (simp add: pack_length)
  have u: "map uint ?p = pack (ss58Format a)"
    using pack_bytes_exact [OF assms(2,3)] by (simp add: o_def)
  have l: "length (?p @ data a @ ?c) = (if ss58Format a \<le> 63 then 35 else 36)"
    using c p assms(1) by simp
  have "\<exists>prefixBytes checksum.
           encode_bytes blake2b a = Inr (prefixBytes @ data a @ checksum)
           \<and> encode base58_encode blake2b a = Inr (base58_encode (prefixBytes @ data a @ checksum))
           \<and> map uint prefixBytes = pack (ss58Format a)
           \<and> length checksum = 2
           \<and> length prefixBytes = (if ss58Format a \<le> 63 then 1 else 2)
           \<and> length (prefixBytes @ data a @ checksum) = (if ss58Format a \<le> 63 then 35 else 36)"
    using e encode_Inr [OF e, of base58_encode] u c p l by blast
  moreover have "length (pack 63) = 1 \<and> length (pack 64) = 2"
    by (simp add: pack_length)
  ultimately show ?thesis by blast
qed

theorem encode_wire_length_witness:
  "(\<exists>prefixBytes checksum.
      encode_bytes sum_hash \<lparr>data = replicate 32 7, ss58Format = 64\<rparr>
        = Inr (prefixBytes @ replicate 32 7 @ checksum)
      \<and> encode text_of_bytes sum_hash \<lparr>data = replicate 32 7, ss58Format = 64\<rparr>
        = Inr (text_of_bytes (prefixBytes @ replicate 32 7 @ checksum))
      \<and> map uint prefixBytes = pack 64
      \<and> length checksum = 2
      \<and> length prefixBytes = 2
      \<and> length (prefixBytes @ replicate 32 7 @ checksum) = 36)
   \<and> length (pack 63) = 1 \<and> length (pack 64) = 2"
  using encode_wire_length
    [of "\<lparr>data = replicate 32 7, ss58Format = 64\<rparr>" sum_hash text_of_bytes]
  by (simp add: sum_hash_length)

text \<open>
  C3. The checksum is the first 2 bytes of the hash of the 7 bytes of the ASCII text
  \<open>SS58PRE\<close> followed by the payload. \<open>encode\<close> appends the checksum of the prefix and
  the data. On an array of a first byte, the rest of the prefix, 32 data bytes and 2 last
  bytes whose format is not reserved, \<open>decode\<close> succeeds exactly when the 2 last bytes are
  the checksum of the prefix and the data, and fails with a checksum mismatch otherwise.
\<close>

theorem checksum_over_prefix_and_data:
  "computeChecksum blake2b bytes =
     take 2 (blake2b (map (\<lambda>c. of_nat (of_char c)) ''SS58PRE'' @ bytes))
   \<and> (encode_bytes blake2b a = Inr wire \<longrightarrow>
        wire = map to_uint8 (pack (ss58Format a)) @ data a @
               computeChecksum blake2b (map to_uint8 (pack (ss58Format a)) @ data a))
   \<and> (unpack b0 (js_index (b0 # ps @ d @ c) 1) = (Suc (length ps), f) \<and>
        f \<noteq> 46 \<and> f \<noteq> 47 \<and> length d = 32 \<and> length c = 2 \<longrightarrow>
        (c = computeChecksum blake2b (b0 # ps @ d) \<longrightarrow>
           decode_bytes blake2b (b0 # ps @ d @ c) = Inr \<lparr>data = d, ss58Format = f\<rparr>)
        \<and> (c \<noteq> computeChecksum blake2b (b0 # ps @ d) \<longrightarrow>
           (\<exists>x y. decode_bytes blake2b (b0 # ps @ d @ c) = Inl (ChecksumMismatch x y))))"
proof -
  have tag: "map (\<lambda>c. of_nat (of_char c)) ''SS58PRE'' = checksumPrefix"
    by (simp add: checksumPrefix_def)
  have 1: "computeChecksum blake2b bytes =
     take 2 (blake2b (map (\<lambda>c. of_nat (of_char c)) ''SS58PRE'' @ bytes))"
    unfolding tag by (simp add: computeChecksum_def CHECKSUM_BYTE_LENGTH_def)
  have 2: "wire = map to_uint8 (pack (ss58Format a)) @ data a @
               computeChecksum blake2b (map to_uint8 (pack (ss58Format a)) @ data a)"
    if "encode_bytes blake2b a = Inr wire"
    using that by (auto simp: encode_bytes_def Let_def split: if_splits)
  have 3: "(c = computeChecksum blake2b (b0 # ps @ d) \<longrightarrow>
           decode_bytes blake2b (b0 # ps @ d @ c) = Inr \<lparr>data = d, ss58Format = f\<rparr>)
        \<and> (c \<noteq> computeChecksum blake2b (b0 # ps @ d) \<longrightarrow>
           (\<exists>x y. decode_bytes blake2b (b0 # ps @ d @ c) = Inl (ChecksumMismatch x y)))"
    if "unpack b0 (js_index (b0 # ps @ d @ c) 1) = (Suc (length ps), f)"
      "f \<noteq> 46" "f \<noteq> 47" "length d = 32" "length c = 2"
    using decode_bytes_wire [OF that, of blake2b]
    by (cases "c = computeChecksum blake2b (b0 # ps @ d)") auto
  show ?thesis using 1 2 3 by blast
qed

theorem checksum_over_prefix_and_data_witness:
  "computeChecksum sum_hash (80 # [8] @ replicate 32 7) =
     take 2 (sum_hash (map (\<lambda>c. of_nat (of_char c)) ''SS58PRE'' @ 80 # [8] @ replicate 32 7))
   \<and> encode_bytes sum_hash \<lparr>data = replicate 32 7, ss58Format = 2112\<rparr>
        = Inr (80 # 8 # replicate 32 7 @ [50, 50])
   \<and> 80 # 8 # replicate 32 7 @ [50, 50] =
        map to_uint8 (pack 2112) @ replicate 32 7 @
          computeChecksum sum_hash (map to_uint8 (pack 2112) @ replicate 32 7)
   \<and> decode_bytes sum_hash (80 # [8] @ replicate 32 7 @ [50, 50])
        = Inr \<lparr>data = replicate 32 7, ss58Format = 2112\<rparr>
   \<and> (\<exists>x y. decode_bytes sum_hash (80 # [8] @ replicate 32 7 @ [50, 51])
        = Inl (ChecksumMismatch x y))"
proof -
  let ?a = "\<lparr>data = replicate 32 7, ss58Format = 2112\<rparr>"
  let ?wire = "80 # 8 # replicate 32 (7 :: byte) @ [50, 50]"
  have cs: "[50, 50] = computeChecksum sum_hash (80 # [8] @ replicate 32 7)"
    by code_simp
  have ncs: "[50, 51] \<noteq> computeChecksum sum_hash (80 # [8] @ replicate 32 7)"
    using cs [symmetric] by simp
  have pk: "map to_uint8 (pack 2112) = [80, 8]"
    by (simp add: pack_def MAX_SIMPLE_PREFIX_def to_uint8_def)
  have e: "encode_bytes sum_hash ?a = Inr ?wire"
    using cs [symmetric] pk
    by (simp add: encode_bytes_def Let_def DATA_LENGTH_def MAX_PREFIX_def RESERVED_PREFIXES_def)
  have u: "unpack 80 (js_index (80 # [8] @ replicate 32 7 @ c) 1) = (Suc (length [8 :: byte]), 2112)"
    for c
    by (simp add: unpack_def js_index_def to_int32_def)
  have n: "(2112 :: int) \<noteq> 46" "(2112 :: int) \<noteq> 47" by simp_all
  have l: "length (replicate 32 (7 :: byte)) = 32" "length [50, 50 :: byte] = 2"
    "length [50, 51 :: byte] = 2" by simp_all
  note t1 = checksum_over_prefix_and_data
      [of sum_hash "80 # [8] @ replicate 32 7" ?a ?wire 80 "[8]" "replicate 32 7" "[50, 50]" 2112]
  note t2 = checksum_over_prefix_and_data
      [of sum_hash "80 # [8] @ replicate 32 7" ?a ?wire 80 "[8]" "replicate 32 7" "[50, 51]" 2112]
  have "decode_bytes sum_hash (80 # [8] @ replicate 32 7 @ [50, 50]) = Inr ?a"
    using t1 u [of "[50, 50]"] n l cs by blast
  moreover have "\<exists>x y. decode_bytes sum_hash (80 # [8] @ replicate 32 7 @ [50, 51])
        = Inl (ChecksumMismatch x y)"
    using t2 u [of "[50, 51]"] n l ncs by blast
  moreover have "?wire = map to_uint8 (pack 2112) @ replicate 32 7 @
          computeChecksum sum_hash (map to_uint8 (pack 2112) @ replicate 32 7)"
    using t1 e by simp
  ultimately show ?thesis using t1 e by blast
qed


text \<open>
  C4, as stated, fails twice. The reserved check comes before the length check: the decoded
  bytes \<open>[46, 0, 0]\<close> leave an empty middle slice, and \<open>decode\<close> fails with the
  reserved format 46. And an array of \<open>prefixLen + 34\<close> bytes holds exactly 32 data
  bytes: the 35 bytes of a valid address with a 1-byte prefix decode to the address.
\<close>

theorem decode_length_rejection_counterexample:
  "length (drop 1 (take (length [46, 0, 0 :: byte] - 2) [46, 0, 0 :: byte])) = 0
   \<and> decode bytes_of_text sum_hash (text_of_bytes [46, 0, 0]) = Inl (ReservedFormat 46)
   \<and> length (0 # replicate 32 (0 :: byte) @ [250, 250]) = 1 + 34
   \<and> decode bytes_of_text sum_hash (text_of_bytes (0 # replicate 32 0 @ [250, 250]))
       = Inr \<lparr>data = replicate 32 0, ss58Format = 0\<rparr>"
proof -
  have u1: "unpack 46 (js_index (46 # [0, 0]) 1) = (1, 46)"
    by (simp add: unpack_def)
  have r: "decode_bytes sum_hash [46, 0, 0] = Inl (ReservedFormat 46)"
    using decode_bytes_reserved [OF u1, of sum_hash] by simp
  have cs: "computeChecksum sum_hash (0 # [] @ replicate 32 0) = [250, 250]"
    by code_simp
  have u2: "unpack 0 (js_index (0 # [] @ replicate 32 0 @ [250, 250]) 1) = (Suc (length ([] :: byte list)), 0)"
    by (simp add: unpack_def)
  have "decode_bytes sum_hash (0 # [] @ replicate 32 0 @ [250, 250])
          = Inr \<lparr>data = replicate 32 0, ss58Format = 0\<rparr>"
    using decode_bytes_wire [OF u2, where h = sum_hash] cs by simp
  then show ?thesis
    using r by (simp add: decode_def text_roundtrip)
qed

text \<open>
  C4, amended. When the base-58 decoding of the input is empty, or recovers a format other
  than 46 and 47, and the middle slice that remains after removing the prefix from the
  front and the last 2 bytes from the back does not have length 32, \<open>decode\<close> fails with
  that length as an invalid data length; in particular for decoded lengths
  \<open>prefixLen + 2\<close> (no data) and \<open>prefixLen + 36\<close> (2 data bytes too many).
\<close>

theorem decode_invalid_data_length:
  "(base58_decode input = Some [] \<longrightarrow>
      decode base58_decode blake2b input = Inl (InvalidDataLength 0))
   \<and> (base58_decode input = Some (b0 # rest) \<and>
       unpack b0 (js_index (b0 # rest) 1) = (len, f) \<and> f \<noteq> 46 \<and> f \<noteq> 47 \<longrightarrow>
        (length (drop len (take (length (b0 # rest) - 2) (b0 # rest))) \<noteq> 32 \<longrightarrow>
           decode base58_decode blake2b input =
             Inl (InvalidDataLength (length (drop len (take (length (b0 # rest) - 2) (b0 # rest))))))
        \<and> (length (b0 # rest) = len + 2 \<longrightarrow>
             decode base58_decode blake2b input = Inl (InvalidDataLength 0))
        \<and> (length (b0 # rest) = len + 36 \<longrightarrow>
             decode base58_decode blake2b input = Inl (InvalidDataLength 34)))"
proof -
  have empty: "decode base58_decode blake2b input = Inl (InvalidDataLength 0)"
    if "base58_decode input = Some []"
    using that by (simp add: decode_def)
  have general: "decode base58_decode blake2b input =
             Inl (InvalidDataLength (length (drop len (take (length (b0 # rest) - 2) (b0 # rest)))))"
    if b: "base58_decode input = Some (b0 # rest)"
      and u: "unpack b0 (js_index (b0 # rest) 1) = (len, f)" and n: "f \<noteq> 46" "f \<noteq> 47"
      and l: "length (drop len (take (length (b0 # rest) - 2) (b0 # rest))) \<noteq> 32"
  proof -
    have "length (b0 # rest) \<noteq> len + 34" using l by auto
    then have "decode_bytes blake2b (b0 # rest) =
        Inl (InvalidDataLength (length (b0 # rest) - 2 - len))"
      using decode_bytes_length [OF u n] by blast
    then show ?thesis using b by (simp add: decode_def)
  qed
  have short: "decode base58_decode blake2b input = Inl (InvalidDataLength 0)"
    if "base58_decode input = Some (b0 # rest)"
      "unpack b0 (js_index (b0 # rest) 1) = (len, f)" "f \<noteq> 46" "f \<noteq> 47"
      "length (b0 # rest) = len + 2"
    using general [OF that(1-4)] that(5) by simp
  have long: "decode base58_decode blake2b input = Inl (InvalidDataLength 34)"
    if "base58_decode input = Some (b0 # rest)"
      "unpack b0 (js_index (b0 # rest) 1) = (len, f)" "f \<noteq> 46" "f \<noteq> 47"
      "length (b0 # rest) = len + 36"
    using general [OF that(1-4)] that(5) by simp
  show ?thesis using empty general short long by blast
qed

theorem decode_invalid_data_length_witness:
  "decode bytes_of_text sum_hash (text_of_bytes []) = Inl (InvalidDataLength 0)
   \<and> decode bytes_of_text sum_hash (text_of_bytes (80 # [8, 1, 2, 3])) = Inl (InvalidDataLength 1)
   \<and> decode bytes_of_text sum_hash (text_of_bytes (80 # [8, 1, 2])) = Inl (InvalidDataLength 0)
   \<and> decode bytes_of_text sum_hash (text_of_bytes (5 # replicate 34 9 @ [1, 2]))
        = Inl (InvalidDataLength 34)"
proof -
  have u1: "unpack 80 (js_index (80 # 8 # xs) 1) = (2, 2112)" for xs
    by (simp add: unpack_def js_index_def to_int32_def)
  have u2: "unpack 5 (js_index (5 # xs) 1) = (1, 5)" for xs
    by (simp add: unpack_def)
  have n: "(2112 :: int) \<noteq> 46" "(2112 :: int) \<noteq> 47" "(5 :: int) \<noteq> 46" "(5 :: int) \<noteq> 47"
    by simp_all
  note t0 = decode_invalid_data_length [of bytes_of_text "text_of_bytes []" sum_hash]
  note t1 = decode_invalid_data_length
      [of bytes_of_text "text_of_bytes (80 # [8, 1, 2, 3])" sum_hash 80 "[8, 1, 2, 3]" 2 2112]
  note t2 = decode_invalid_data_length
      [of bytes_of_text "text_of_bytes (80 # [8, 1, 2])" sum_hash 80 "[8, 1, 2]" 2 2112]
  note t3 = decode_invalid_data_length
      [of bytes_of_text "text_of_bytes (5 # replicate 34 9 @ [1, 2])" sum_hash
          5 "replicate 34 9 @ [1, 2]" 1 5]
  have "decode bytes_of_text sum_hash (text_of_bytes []) = Inl (InvalidDataLength 0)"
    using t0 text_roundtrip [of "[]"] by blast
  moreover have "decode bytes_of_text sum_hash (text_of_bytes (80 # [8, 1, 2, 3]))
      = Inl (InvalidDataLength 1)"
    using t1 text_roundtrip [of "80 # [8, 1, 2, 3]"] u1 [of "[1, 2, 3]"] n by simp
  moreover have "decode bytes_of_text sum_hash (text_of_bytes (80 # [8, 1, 2]))
      = Inl (InvalidDataLength 0)"
    using t2 text_roundtrip [of "80 # [8, 1, 2]"] u1 [of "[1, 2]"] n by simp
  moreover have "decode bytes_of_text sum_hash (text_of_bytes (5 # replicate 34 9 @ [1, 2]))
      = Inl (InvalidDataLength 34)"
    using t3 text_roundtrip [of "5 # replicate 34 9 @ [1, 2]"] u2 [of "replicate 34 9 @ [1, 2]"] n
    by simp
  ultimately show ?thesis by blast
qed


text \<open>
  C5, as stated, fails for \<open>encode\<close>: the length of the data is checked before the
  format, so an address with format 46 and no data fails with an invalid data length.
\<close>

theorem reserved_rejection_counterexample:
  "encode text_of_bytes sum_hash \<lparr>data = [], ss58Format = 46\<rparr> = Inl (InvalidDataLength 0)"
  by (simp add: encode_def encode_bytes_def DATA_LENGTH_def)

text \<open>
  C5, amended. \<open>encode\<close> fails with the reserved format when the format is 46 or 47 and
  the data has 32 bytes. \<open>decode\<close> fails with the reserved format whenever the format
  recovered from the decoded bytes is 46 or 47, whatever the other bytes, their number and
  the hash function are.
\<close>

theorem reserved_format_rejected:
  "(length (data a) = 32 \<and> (ss58Format a = 46 \<or> ss58Format a = 47) \<longrightarrow>
      encode base58_encode blake2b a = Inl (ReservedFormat (ss58Format a)))
   \<and> (base58_decode input = Some (b0 # rest) \<and>
       unpack b0 (js_index (b0 # rest) 1) = (len, f) \<and> (f = 46 \<or> f = 47) \<longrightarrow>
      decode base58_decode blake2b input = Inl (ReservedFormat f))"
proof -
  have enc: "encode base58_encode blake2b a = Inl (ReservedFormat (ss58Format a))"
    if "length (data a) = 32" "ss58Format a = 46 \<or> ss58Format a = 47"
    using that
    by (auto simp: encode_def encode_bytes_def DATA_LENGTH_def MAX_PREFIX_def
        RESERVED_PREFIXES_def)
  have dec: "decode base58_decode blake2b input = Inl (ReservedFormat f)"
    if "base58_decode input = Some (b0 # rest)"
      "unpack b0 (js_index (b0 # rest) 1) = (len, f)" "f = 46 \<or> f = 47"
    using decode_bytes_reserved [OF that(2,3), of blake2b] that(1) by (simp add: decode_def)
  show ?thesis using enc dec by blast
qed

theorem reserved_format_rejected_witness:
  "encode text_of_bytes sum_hash \<lparr>data = replicate 32 7, ss58Format = 47\<rparr>
     = Inl (ReservedFormat 47)
   \<and> decode bytes_of_text sum_hash (text_of_bytes (75 # 128 # replicate 32 7 @ [165, 165]))
     = Inl (ReservedFormat 46)
   \<and> computeChecksum sum_hash (75 # 128 # replicate 32 7) = [165, 165]
   \<and> decode bytes_of_text sum_hash (text_of_bytes (47 # [1, 2, 3])) = Inl (ReservedFormat 47)"
proof -
  let ?a = "\<lparr>data = replicate 32 (7 :: byte), ss58Format = 47\<rparr>"
  have u1: "unpack 75 (js_index (75 # 128 # xs) 1) = (2, 46)" for xs
    by (simp add: unpack_def js_index_def to_int32_def)
  have u2: "unpack 47 (js_index (47 # xs) 1) = (1, 47)" for xs
    by (simp add: unpack_def)
  have cs: "computeChecksum sum_hash (75 # 128 # replicate 32 7) = [165, 165]"
    by code_simp
  note t1 = reserved_format_rejected [of ?a text_of_bytes sum_hash]
  note t2 = reserved_format_rejected
      [of _ _ sum_hash bytes_of_text "text_of_bytes (75 # 128 # replicate 32 7 @ [165, 165])"
          75 "128 # replicate 32 7 @ [165, 165]" 2 46]
  note t3 = reserved_format_rejected
      [of _ _ sum_hash bytes_of_text "text_of_bytes (47 # [1, 2, 3])" 47 "[1, 2, 3]" 1 47]
  have "encode text_of_bytes sum_hash ?a = Inl (ReservedFormat 47)"
    using t1 by simp
  moreover have "decode bytes_of_text sum_hash
      (text_of_bytes (75 # 128 # replicate 32 7 @ [165, 165])) = Inl (ReservedFormat 46)"
    using t2 text_roundtrip [of "75 # 128 # replicate 32 7 @ [165, 165]"]
      u1 [of "replicate 32 7 @ [165, 165]"] by simp
  moreover have "decode bytes_of_text sum_hash (text_of_bytes (47 # [1, 2, 3]))
      = Inl (ReservedFormat 47)"
    using t3 text_roundtrip [of "47 # [1, 2, 3]"] u2 [of "[1, 2, 3]"] by simp
  ultimately show ?thesis using cs by blast
qed

text \<open>
  C6. \<open>encode\<close> returns a text exactly when the data has 32 bytes, the format lies in
  \<open>[0, 16383]\<close> and the format is neither 46 nor 47. The checks run in this order and
  each has a failure of its own: the invalid data length, the invalid format range, the
  reserved format. \<open>decode\<close> never fails with the invalid format range.
\<close>

theorem encode_preconditions:
  "((\<exists>text. encode base58_encode blake2b a = Inr text) \<longleftrightarrow>
      length (data a) = 32 \<and> 0 \<le> ss58Format a \<and> ss58Format a \<le> 16383 \<and>
      ss58Format a \<noteq> 46 \<and> ss58Format a \<noteq> 47)
   \<and> (length (data a) \<noteq> 32 \<longrightarrow>
        encode base58_encode blake2b a = Inl (InvalidDataLength (length (data a))))
   \<and> (length (data a) = 32 \<and> (ss58Format a < 0 \<or> 16383 < ss58Format a) \<longrightarrow>
        encode base58_encode blake2b a = Inl (InvalidFormatRange (ss58Format a)))
   \<and> (length (data a) = 32 \<and> (ss58Format a = 46 \<or> ss58Format a = 47) \<longrightarrow>
        encode base58_encode blake2b a = Inl (ReservedFormat (ss58Format a)))
   \<and> decode base58_decode blake2b input \<noteq> Inl (InvalidFormatRange n)"
proof -
  have ok: "(\<exists>text. encode base58_encode blake2b a = Inr text) \<longleftrightarrow>
      length (data a) = 32 \<and> 0 \<le> ss58Format a \<and> ss58Format a \<le> 16383 \<and>
      ss58Format a \<noteq> 46 \<and> ss58Format a \<noteq> 47"
    by (auto simp: encode_def encode_bytes_def Let_def DATA_LENGTH_def MAX_PREFIX_def
        RESERVED_PREFIXES_def)
  have l: "encode base58_encode blake2b a = Inl (InvalidDataLength (length (data a)))"
    if "length (data a) \<noteq> 32"
    using that by (simp add: encode_def encode_bytes_def DATA_LENGTH_def)
  have r: "encode base58_encode blake2b a = Inl (InvalidFormatRange (ss58Format a))"
    if "length (data a) = 32" "ss58Format a < 0 \<or> 16383 < ss58Format a"
    using that by (auto simp: encode_def encode_bytes_def DATA_LENGTH_def MAX_PREFIX_def)
  have v: "encode base58_encode blake2b a = Inl (ReservedFormat (ss58Format a))"
    if "length (data a) = 32" "ss58Format a = 46 \<or> ss58Format a = 47"
    using that
    by (auto simp: encode_def encode_bytes_def DATA_LENGTH_def MAX_PREFIX_def
        RESERVED_PREFIXES_def)
  have d: "decode base58_decode blake2b input \<noteq> Inl (InvalidFormatRange n)"
  proof (cases "base58_decode input")
    case None
    then show ?thesis by (simp add: decode_def)
  next
    case (Some bytes)
    then show ?thesis
      using decode_bytes_outcome [of blake2b bytes] by (auto simp: decode_def)
  qed
  show ?thesis using ok l r v d by blast
qed

theorem encode_preconditions_witness:
  "(\<exists>text. encode text_of_bytes sum_hash \<lparr>data = replicate 32 7, ss58Format = 2112\<rparr> = Inr text)
   \<and> encode text_of_bytes sum_hash \<lparr>data = replicate 31 7, ss58Format = 2112\<rparr>
       = Inl (InvalidDataLength 31)
   \<and> encode text_of_bytes sum_hash \<lparr>data = replicate 32 7, ss58Format = 16384\<rparr>
       = Inl (InvalidFormatRange 16384)
   \<and> encode text_of_bytes sum_hash \<lparr>data = replicate 32 7, ss58Format = - 1\<rparr>
       = Inl (InvalidFormatRange (- 1))
   \<and> encode text_of_bytes sum_hash \<lparr>data = replicate 32 7, ss58Format = 46\<rparr>
       = Inl (ReservedFormat 46)
   \<and> decode bytes_of_text sum_hash (text_of_bytes [46, 0, 0]) \<noteq> Inl (InvalidFormatRange 46)"
  using encode_preconditions
      [of text_of_bytes sum_hash "\<lparr>data = replicate 32 7, ss58Format = 2112\<rparr>"
          bytes_of_text "text_of_bytes [46, 0, 0]" 46]
    encode_preconditions
      [of text_of_bytes sum_hash "\<lparr>data = replicate 31 7, ss58Format = 2112\<rparr>"]
    encode_preconditions
      [of text_of_bytes sum_hash "\<lparr>data = replicate 32 7, ss58Format = 16384\<rparr>"]
    encode_preconditions
      [of text_of_bytes sum_hash "\<lparr>data = replicate 32 7, ss58Format = - 1\<rparr>"]
    encode_preconditions
      [of text_of_bytes sum_hash "\<lparr>data = replicate 32 7, ss58Format = 46\<rparr>"]
  by simp


text \<open>
  C9. \<open>decode\<close> accepts wire forms that \<open>encode\<close> never produces. For any 32 data
  bytes, a hash function that returns at least 2 bytes and a base-58 decoder that inverts
  the encoder: the 2-byte prefix \<open>0x40, 0\<close> followed by the data and the matching
  checksum decodes to format 0, which \<open>encode\<close> writes with the 1-byte prefix \<open>0\<close>,
  a different text; and a 1-byte prefix \<open>b\<close> in \<open>[128, 191]\<close> followed by the data and
  the matching checksum decodes to format \<open>b\<close>, which \<open>encode\<close> writes with a 2-byte
  prefix, a different text.
\<close>

theorem decode_accepts_noncanonical:
  assumes "length d = 32"
    and hash: "\<forall>bytes. 2 \<le> length (blake2b bytes)"
    and base58: "\<forall>bytes. base58_decode (base58_encode bytes) = Some bytes"
  shows "decode base58_decode blake2b
           (base58_encode ([0x40, 0] @ d @ computeChecksum blake2b ([0x40, 0] @ d)))
           = Inr \<lparr>data = d, ss58Format = 0\<rparr>
         \<and> encode base58_encode blake2b \<lparr>data = d, ss58Format = 0\<rparr>
           = Inr (base58_encode ([0] @ d @ computeChecksum blake2b ([0] @ d)))
         \<and> base58_encode ([0] @ d @ computeChecksum blake2b ([0] @ d))
           \<noteq> base58_encode ([0x40, 0] @ d @ computeChecksum blake2b ([0x40, 0] @ d))
         \<and> (128 \<le> uint b \<and> uint b \<le> 191 \<longrightarrow>
              decode base58_decode blake2b
                (base58_encode ([b] @ d @ computeChecksum blake2b ([b] @ d)))
                = Inr \<lparr>data = d, ss58Format = uint b\<rparr>
              \<and> (\<exists>p0 p1. encode base58_encode blake2b \<lparr>data = d, ss58Format = uint b\<rparr>
                    = Inr (base58_encode ([p0, p1] @ d @ computeChecksum blake2b ([p0, p1] @ d)))
                  \<and> base58_encode ([p0, p1] @ d @ computeChecksum blake2b ([p0, p1] @ d))
                    \<noteq> base58_encode ([b] @ d @ computeChecksum blake2b ([b] @ d))))"
proof -
  have inj: "base58_encode x \<noteq> base58_encode y" if "length x \<noteq> length y" for x y
  proof
    assume "base58_encode x = base58_encode y"
    then have "base58_decode (base58_encode x) = base58_decode (base58_encode y)" by simp
    then have "x = y" using base58 by simp
    then show False using that by simp
  qed
  have cl: "length (computeChecksum blake2b bytes) = 2" for bytes
    using hash by (simp add: computeChecksum_length_eq)
  have dec: "decode base58_decode blake2b (base58_encode bytes) = decode_bytes blake2b bytes"
    for bytes
    using base58 by (simp add: decode_def)
  \<comment> \<open>the extended prefix of format 0\<close>
  have u0: "unpack 0x40 (js_index (0x40 # [0] @ d @ c) 1) = (Suc (length [0 :: byte]), 0)" for c
    by (simp add: unpack_def js_index_def to_int32_def)
  have d0: "decode_bytes blake2b ([0x40, 0] @ d @ computeChecksum blake2b ([0x40, 0] @ d))
      = Inr \<lparr>data = d, ss58Format = 0\<rparr>"
    using decode_bytes_wire [OF u0, where h = blake2b] assms(1) cl by simp
  have e0: "encode base58_encode blake2b \<lparr>data = d, ss58Format = 0\<rparr>
      = Inr (base58_encode ([0] @ d @ computeChecksum blake2b ([0] @ d)))"
    using encode_bytes_valid [of "\<lparr>data = d, ss58Format = 0\<rparr>" blake2b] assms(1)
    by (simp add: encode_def pack_def MAX_SIMPLE_PREFIX_def to_uint8_def)
  have n0: "base58_encode ([0] @ d @ computeChecksum blake2b ([0] @ d))
      \<noteq> base58_encode ([0x40, 0] @ d @ computeChecksum blake2b ([0x40, 0] @ d))"
    by (rule inj) (simp add: cl)
  \<comment> \<open>a simple prefix above 127\<close>
  have hi: "decode base58_decode blake2b
                (base58_encode ([b] @ d @ computeChecksum blake2b ([b] @ d)))
                = Inr \<lparr>data = d, ss58Format = uint b\<rparr>
              \<and> (\<exists>p0 p1. encode base58_encode blake2b \<lparr>data = d, ss58Format = uint b\<rparr>
                    = Inr (base58_encode ([p0, p1] @ d @ computeChecksum blake2b ([p0, p1] @ d)))
                  \<and> base58_encode ([p0, p1] @ d @ computeChecksum blake2b ([p0, p1] @ d))
                    \<noteq> base58_encode ([b] @ d @ computeChecksum blake2b ([b] @ d)))"
    if b: "128 \<le> uint b" "uint b \<le> 191"
  proof -
    have "uint b div 2 ^ 6 = 2" using b by simp
    then have "\<not> bit (uint b) 6" by (simp add: bit_iff_odd)
    then have "uint b AND 0x40 = 0"
      by (intro bit_eqI) (auto simp: bit_and_iff bit_0x40)
    then have ub: "unpack b (js_index (b # [] @ d @ c) 1) = (Suc (length ([] :: byte list)), uint b)"
      for c
      by (simp add: unpack_def)
    have db: "decode_bytes blake2b ([b] @ d @ computeChecksum blake2b ([b] @ d))
        = Inr \<lparr>data = d, ss58Format = uint b\<rparr>"
      using decode_bytes_wire [OF ub, where h = blake2b] assms(1) cl b by simp
    let ?p0 = "to_uint8 (drop_bit 2 (uint b AND 0xfc) OR 0x40)"
    let ?p1 = "to_uint8 (drop_bit 8 (uint b) OR push_bit 6 (uint b AND 3))"
    have pk: "map to_uint8 (pack (uint b)) = [?p0, ?p1]"
      using b by (simp add: pack_def MAX_SIMPLE_PREFIX_def)
    have eb: "encode base58_encode blake2b \<lparr>data = d, ss58Format = uint b\<rparr>
        = Inr (base58_encode ([?p0, ?p1] @ d @ computeChecksum blake2b ([?p0, ?p1] @ d)))"
      using encode_bytes_valid [of "\<lparr>data = d, ss58Format = uint b\<rparr>" blake2b] assms(1) b
      by (simp add: encode_def pk)
    have nb: "base58_encode ([?p0, ?p1] @ d @ computeChecksum blake2b ([?p0, ?p1] @ d))
        \<noteq> base58_encode ([b] @ d @ computeChecksum blake2b ([b] @ d))"
      by (rule inj) (simp add: cl)
    show ?thesis using db eb nb dec by metis
  qed
  show ?thesis using d0 e0 n0 hi dec by metis
qed

theorem decode_accepts_noncanonical_witness:
  "decode bytes_of_text sum_hash
     (text_of_bytes ([0x40, 0] @ replicate 32 7 @ computeChecksum sum_hash ([0x40, 0] @ replicate 32 7)))
     = Inr \<lparr>data = replicate 32 7, ss58Format = 0\<rparr>
   \<and> encode text_of_bytes sum_hash \<lparr>data = replicate 32 7, ss58Format = 0\<rparr>
     = Inr (text_of_bytes ([0] @ replicate 32 7 @ computeChecksum sum_hash ([0] @ replicate 32 7)))
   \<and> text_of_bytes ([0] @ replicate 32 7 @ computeChecksum sum_hash ([0] @ replicate 32 7))
     \<noteq> text_of_bytes ([0x40, 0] @ replicate 32 7 @ computeChecksum sum_hash ([0x40, 0] @ replicate 32 7))
   \<and> decode bytes_of_text sum_hash
        (text_of_bytes ([150] @ replicate 32 7 @ computeChecksum sum_hash ([150] @ replicate 32 7)))
        = Inr \<lparr>data = replicate 32 7, ss58Format = 150\<rparr>
   \<and> (\<exists>p0 p1. encode text_of_bytes sum_hash \<lparr>data = replicate 32 7, ss58Format = 150\<rparr>
         = Inr (text_of_bytes ([p0, p1] @ replicate 32 7 @ computeChecksum sum_hash ([p0, p1] @ replicate 32 7)))
       \<and> text_of_bytes ([p0, p1] @ replicate 32 7 @ computeChecksum sum_hash ([p0, p1] @ replicate 32 7))
         \<noteq> text_of_bytes ([150] @ replicate 32 7 @ computeChecksum sum_hash ([150] @ replicate 32 7)))"
proof -
  have h1: "length (replicate 32 (7 :: byte)) = 32" by simp
  have h2: "\<forall>bytes. 2 \<le> length (sum_hash bytes)" by (simp add: sum_hash_length)
  have h3: "\<forall>bytes. bytes_of_text (text_of_bytes bytes) = Some bytes"
    by (simp add: text_roundtrip)
  have b: "128 \<le> uint (150 :: byte) \<and> uint (150 :: byte) \<le> 191" by simp
  have v: "uint (150 :: byte) = 150" by simp
  show ?thesis
    using decode_accepts_noncanonical [OF h1 h2 h3, of 150] b unfolding v by blast
qed


text \<open>
  C10. \<open>decode\<close> is total on the inputs that the base-58 decoder accepts. For every
  decoded byte array, the empty one and those of 1 or 2 bytes included, it returns a valid
  address (32 data bytes, a format in \<open>[0, 16383]\<close> other than 46 and 47) or fails with
  the reserved format, the invalid data length or the checksum mismatch; the reads past the
  end of the array are \<^verbatim>\<open>undefined\<close> and raise nothing. The empty array fails with the
  data length 0. An array shorter than the length of its prefix plus 34 fails: with the
  reserved format when the format is 46 or 47, with the invalid data length otherwise.
\<close>

theorem decode_total:
  assumes "base58_decode input = Some bytes"
  shows "((\<exists>a. decode base58_decode blake2b input = Inr a \<and> length (data a) = 32 \<and>
              0 \<le> ss58Format a \<and> ss58Format a \<le> 16383 \<and>
              ss58Format a \<noteq> 46 \<and> ss58Format a \<noteq> 47)
          \<or> (\<exists>f. decode base58_decode blake2b input = Inl (ReservedFormat f) \<and> (f = 46 \<or> f = 47))
          \<or> (\<exists>n. decode base58_decode blake2b input = Inl (InvalidDataLength n) \<and> n \<noteq> 32)
          \<or> (\<exists>x y. decode base58_decode blake2b input = Inl (ChecksumMismatch x y) \<and> x \<noteq> y))
         \<and> (bytes = [] \<longrightarrow> decode base58_decode blake2b input = Inl (InvalidDataLength 0))
         \<and> (\<forall>b0 rest len f.
               bytes = b0 # rest \<and> unpack b0 (js_index bytes 1) = (len, f) \<and>
               length bytes < len + 34 \<longrightarrow>
               decode base58_decode blake2b input =
                 (if f = 46 \<or> f = 47 then Inl (ReservedFormat f)
                  else Inl (InvalidDataLength (length bytes - 2 - len))))"
proof -
  have d: "decode base58_decode blake2b input = decode_bytes blake2b bytes"
    using assms by (simp add: decode_def)
  have short: "decode_bytes blake2b bytes =
                 (if f = 46 \<or> f = 47 then Inl (ReservedFormat f)
                  else Inl (InvalidDataLength (length bytes - 2 - len)))"
    if "bytes = b0 # rest" "unpack b0 (js_index bytes 1) = (len, f)" "length bytes < len + 34"
    for b0 rest len f
  proof (cases "f = 46 \<or> f = 47")
    case True
    then show ?thesis
      using decode_bytes_reserved [of b0 rest len f blake2b] that by simp
  next
    case False
    then show ?thesis
      using decode_bytes_length [of b0 rest len f blake2b] that by simp
  qed
  have empty: "bytes = [] \<longrightarrow> decode_bytes blake2b bytes = Inl (InvalidDataLength 0)"
    by simp
  show ?thesis
    unfolding d using decode_bytes_outcome [of blake2b bytes] empty short by blast
qed

theorem decode_total_witness:
  "decode bytes_of_text sum_hash (text_of_bytes []) = Inl (InvalidDataLength 0)
   \<and> decode bytes_of_text sum_hash (text_of_bytes [0x40]) = Inl (InvalidDataLength 0)
   \<and> decode bytes_of_text sum_hash (text_of_bytes [46]) = Inl (ReservedFormat 46)
   \<and> decode bytes_of_text sum_hash (text_of_bytes [5, 6]) = Inl (InvalidDataLength 0)"
proof -
  have u1: "unpack 0x40 (js_index [0x40] 1) = (2, 0)"
    by (simp add: unpack_def js_index_def to_int32_def)
  have u2: "unpack 46 (js_index [46] 1) = (1, 46)"
    by (simp add: unpack_def)
  have u3: "unpack 5 (js_index [5, 6] 1) = (1, 5)"
    by (simp add: unpack_def)
  note t0 = decode_total [of bytes_of_text "text_of_bytes []" "[]" sum_hash, OF text_roundtrip]
  note t1 = decode_total [of bytes_of_text "text_of_bytes [0x40]" "[0x40]" sum_hash, OF text_roundtrip]
  note t2 = decode_total [of bytes_of_text "text_of_bytes [46]" "[46]" sum_hash, OF text_roundtrip]
  note t3 = decode_total [of bytes_of_text "text_of_bytes [5, 6]" "[5, 6]" sum_hash, OF text_roundtrip]
  have "decode bytes_of_text sum_hash (text_of_bytes []) = Inl (InvalidDataLength 0)"
    using t0 by blast
  moreover have "decode bytes_of_text sum_hash (text_of_bytes [0x40]) = Inl (InvalidDataLength 0)"
    using t1 u1 by simp
  moreover have "decode bytes_of_text sum_hash (text_of_bytes [46]) = Inl (ReservedFormat 46)"
    using t2 u2 by simp
  moreover have "decode bytes_of_text sum_hash (text_of_bytes [5, 6]) = Inl (InvalidDataLength 0)"
    using t3 u3 by simp
  ultimately show ?thesis by blast
qed

end
